theory Spec2Isabelle
  imports Main
begin


section \<open>Python string primitives used by \<open>EDLParser.py\<close>\<close>

text \<open>
  Strings are lists of 8-bit characters, read as the code points 0..255 of a Python
  \<open>str\<close>. The string methods below are the ones \<open>parse_edl_file\<close> and
  \<open>generate_folders\<close> call; each is written out as CPython computes it.
\<close>

text \<open>\<open>str.isspace\<close> on one character: the code points below 256 that Python counts as
  whitespace are 9..13, 28..32, 133 and 160.\<close>

definition isspace :: "char \<Rightarrow> bool" where
  "isspace c = (of_char c \<in> {9, 10, 11, 12, 13, 28, 29, 30, 31, 32, 133, 160 :: nat})"

text \<open>The class \<open>\d\<close> of \<open>re\<close>: below code point 256 the decimal digits are 0..9.\<close>

definition isdigit :: "char \<Rightarrow> bool" where
  "isdigit c = (c \<in> set ''0123456789'')"

text \<open>\<open>s.strip()\<close>: leading and trailing whitespace removed.\<close>

definition strip :: "string \<Rightarrow> string" where
  "strip s = rev (dropWhile isspace (rev (dropWhile isspace s)))"

text \<open>\<open>s.startswith(p)\<close> and \<open>s.endswith(p)\<close>.\<close>

definition startswith :: "string \<Rightarrow> string \<Rightarrow> bool" where
  "startswith s p = (take (length p) s = p)"

definition endswith :: "string \<Rightarrow> string \<Rightarrow> bool" where
  "endswith s p = (length p \<le> length s \<and> drop (length s - length p) s = p)"

text \<open>
  \<open>s.split(sep)\<close> for a separator that is not empty: the string is scanned from the
  left, every occurrence of \<open>sep\<close> found ends a piece and the scan resumes behind it
  (occurrences do not overlap). The source only splits on the literals \<open>"CLIP"\<close>,
  \<open>"_"\<close>, \<open>"e"\<close>, \<open>"-"\<close> and \<open>"."\<close>; for the empty separator, where Python raises
  ValueError, the model returns the string unsplit.
\<close>

definition cons_first :: "char \<Rightarrow> string list \<Rightarrow> string list" where
  "cons_first c ps = (case ps of [] \<Rightarrow> [[c]] | p # qs \<Rightarrow> (c # p) # qs)"

fun py_split :: "string \<Rightarrow> string \<Rightarrow> string list" where
  "py_split sep [] = [[]]"
| "py_split sep (c # cs) =
     (if sep \<noteq> [] \<and> startswith (c # cs) sep
      then [] # py_split sep (drop (length sep - 1) cs)
      else cons_first c (py_split sep cs))"

text \<open>\<open>s.zfill(width)\<close>: zeros are put on the left up to \<open>width\<close>, behind a leading sign
  character if there is one.\<close>

definition zfill :: "nat \<Rightarrow> string \<Rightarrow> string" where
  "zfill width s =
     (if width \<le> length s then s
      else (case s of
              [] \<Rightarrow> replicate width (CHR ''0'')
            | c # cs \<Rightarrow>
                if c = CHR ''+'' \<or> c = CHR ''-''
                then c # replicate (width - length s) (CHR ''0'') @ cs
                else replicate (width - length s) (CHR ''0'') @ s))"

text \<open>
  \<open>re.match(r'^s\d{2}e\d{2,3}$', t)\<close>: the letter s, two digits, the letter e, two or
  three digits, then the end of the string; without the MULTILINE flag \<open>$\<close> also
  matches just before a newline that ends the string.
\<close>

definition re_match_pattern :: "string \<Rightarrow> bool" where
  "re_match_pattern t =
     (let u = (if t \<noteq> [] \<and> last t = CHR 0x0A then butlast t else t)
      in (length u = 6 \<or> length u = 7) \<and>
         u ! 0 = CHR ''s'' \<and> isdigit (u ! 1) \<and> isdigit (u ! 2) \<and>
         u ! 3 = CHR ''e'' \<and> list_all isdigit (drop 4 u))"

section \<open>Errors and indexing\<close>

datatype py_error = IndexError | IOError

text \<open>\<open>xs[i]\<close> for an index that is not negative: IndexError out of range.\<close>

definition index :: "'a list \<Rightarrow> nat \<Rightarrow> py_error + 'a" where
  "index xs i = (if i < length xs then Inr (xs ! i) else Inl IndexError)"

section \<open>The record extractor: \<open>parse_edl_file\<close>\<close>

text \<open>A row of \<open>clip_data\<close> is the tuple \<open>(clip_name, shot, episode, season)\<close>.\<close>

type_synonym clip = "string \<times> string \<times> string \<times> string"

text \<open>Line 169: \<open>clip_name = line.split("CLIP")[1].strip()\<close>.\<close>

definition clip_name_of :: "string \<Rightarrow> py_error + string" where
  "clip_name_of line =
     (case index (py_split ''CLIP'' line) 1 of
        Inl e \<Rightarrow> Inl e
      | Inr seg \<Rightarrow> Inr (strip seg))"

text \<open>Lines 179 to 182: the episode number is padded when \<open>len(episode) <= 3\<close>.\<close>

definition normalize_episode :: "string \<Rightarrow> py_error + string" where
  "normalize_episode episode =
     (if length episode \<le> 3
      then (case index (py_split ''e'' episode) 1 of
              Inl e \<Rightarrow> Inl e
            | Inr e_number \<Rightarrow> Inr (''e'' @ zfill 3 e_number))
      else Inr episode)"

text \<open>Lines 186 to 189, the body of the \<open>.mov\<close> branch.\<close>

definition mov_shot :: "string list \<Rightarrow> string \<Rightarrow> py_error + string" where
  "mov_shot parts episode =
     (case index parts 4 of
        Inl e \<Rightarrow> Inl e
      | Inr p4 \<Rightarrow>
          (case index (py_split ''-'' p4) 1 of
             Inl e \<Rightarrow> Inl e
           | Inr shot \<Rightarrow>
               (case index (py_split ''.'' shot) 0 of
                  Inl e \<Rightarrow> Inl e
                | Inr shot' \<Rightarrow> Inr (episode @ ''s'' @ zfill 4 shot'))))"

text \<open>Lines 193 to 195, the body of the \<open>.wav\<close> branch.\<close>

definition wav_shot :: "string list \<Rightarrow> string \<Rightarrow> py_error + string" where
  "wav_shot parts episode =
     (case index parts 1 of
        Inl e \<Rightarrow> Inl e
      | Inr p1 \<Rightarrow>
          (case index (py_split ''-'' p1) 0 of
             Inl e \<Rightarrow> Inl e
           | Inr shot \<Rightarrow> Inr (episode @ ''s'' @ zfill 4 shot)))"

text \<open>Lines 176 and 185 to 195: \<open>shot\<close> starts empty, then the two \<open>if\<close> statements run
  one after the other, each on \<open>parts[len(parts) - 1]\<close>.\<close>

definition shot_of :: "string list \<Rightarrow> string \<Rightarrow> py_error + string" where
  "shot_of parts episode =
     (case index parts (length parts - 1) of
        Inl e \<Rightarrow> Inl e
      | Inr lst \<Rightarrow>
          (case (if endswith lst ''.mov'' then mov_shot parts episode else Inr []) of
             Inl e \<Rightarrow> Inl e
           | Inr shot \<Rightarrow>
               if endswith lst ''.wav'' then wav_shot parts episode else Inr shot))"

text \<open>
  Lines 168 to 198, the body of the loop for one line: \<open>Inl e\<close> when the line raises,
  \<open>Inr None\<close> when it appends nothing, \<open>Inr (Some r)\<close> when it appends the tuple \<open>r\<close>.
\<close>

definition process_line :: "string \<Rightarrow> py_error + clip option" where
  "process_line line =
     (if startswith (strip line) ''REEL'' then
        (case clip_name_of line of
           Inl e \<Rightarrow> Inl e
         | Inr clip_name \<Rightarrow>
             let parts = py_split ''_'' clip_name in
             (case index parts 0 of
                Inl e \<Rightarrow> Inl e
              | Inr p0 \<Rightarrow>
                  if re_match_pattern p0 then
                    let season = take 3 p0 in
                    (case normalize_episode (drop 3 p0) of
                       Inl e \<Rightarrow> Inl e
                     | Inr episode \<Rightarrow>
                         (case shot_of parts episode of
                            Inl e \<Rightarrow> Inl e
                          | Inr shot \<Rightarrow> Inr (Some (clip_name, shot, episode, season))))
                  else Inr None))
      else Inr None)"

text \<open>
  Iterating over the open text file yields its lines, each with the newline that ends
  it (the last line may have none). The content is the text after decoding and after
  Python's newline translation, so the only line break in it is the character 10.
\<close>

fun file_lines :: "string \<Rightarrow> string list" where
  "file_lines [] = []"
| "file_lines (c # cs) =
     (if c = CHR 0x0A then [c] # file_lines cs else cons_first c (file_lines cs))"

text \<open>
  The state of the application that the two operations read and write:
  \<open>self.clip_data\<close> and the rows shown by \<open>self.table_widget\<close>. The constructor
  (line 52) sets \<open>clip_data\<close> to the empty list; the table starts without rows.
\<close>

record app_state =
  clip_data :: "clip list"
  table_rows :: "clip list"

definition init_app :: app_state where
  "init_app = \<lparr>clip_data = [], table_rows = []\<rparr>"

text \<open>
  The \<open>for\<close> loop of lines 167 to 198 over the list \<open>self.clip_data\<close>, which
  \<open>append\<close> changes in place: when a line raises, the loop ends there and the rows
  appended so far stay in the list.
\<close>

fun parse_lines :: "string list \<Rightarrow> clip list \<Rightarrow> py_error option \<times> clip list" where
  "parse_lines [] cd = (None, cd)"
| "parse_lines (line # rest) cd =
     (case process_line line of
        Inl e \<Rightarrow> (Some e, cd)
      | Inr None \<Rightarrow> parse_lines rest cd
      | Inr (Some r) \<Rightarrow> parse_lines rest (cd @ [r]))"

text \<open>\<open>load_edl_data\<close>: the table gets one row per element of \<open>clip_data\<close>, every cell
  set from the tuple.\<close>

definition load_edl_data :: "app_state \<Rightarrow> app_state" where
  "load_edl_data s = s\<lparr>table_rows := clip_data s\<rparr>"

text \<open>
  \<open>parse_edl_file\<close>. The file is given by what \<open>open\<close> finds: \<open>None\<close> when it cannot
  be opened (IOError is raised again by the handler), its content otherwise. Only
  IOError is caught, so an IndexError of a line leaves the function before
  \<open>load_edl_data\<close> runs.
\<close>

definition parse_edl_file :: "string option \<Rightarrow> app_state \<Rightarrow> py_error option \<times> app_state" where
  "parse_edl_file file s =
     (case file of
        None \<Rightarrow> (Some IOError, s)
      | Some content \<Rightarrow>
          (case parse_lines (file_lines content) (clip_data s) of
             (Some e, cd) \<Rightarrow> (Some e, s\<lparr>clip_data := cd\<rparr>)
           | (None, cd) \<Rightarrow> (None, load_edl_data (s\<lparr>clip_data := cd\<rparr>))))"

section \<open>The folder materializer: \<open>generate_folders\<close>\<close>

text \<open>
  The part of the operating system that \<open>generate_folders\<close> touches: the current
  working directory, as the absolute path string \<open>os.getcwd()\<close> returns, and the
  directories that exist, each as the list of the names on its path from the root
  (the root itself is the empty list and always exists). Regular files, symbolic
  links and permissions are not part of the model, and the names \<open>.\<close> and \<open>..\<close> are
  names like any other.
\<close>

datatype os_error = FileExistsError | FileNotFoundError

record os_state =
  cwd :: string
  dirs :: "string list set"

text \<open>\<open>os.path.join(a, b)\<close> of \<open>posixpath\<close>: an absolute \<open>b\<close> replaces \<open>a\<close>; otherwise
  \<open>b\<close> is appended, behind a slash unless \<open>a\<close> is empty or ends with one.\<close>

definition path_join :: "string \<Rightarrow> string \<Rightarrow> string" where
  "path_join a b =
     (if startswith b ''/'' then b
      else if a = [] \<or> endswith a ''/'' then a @ b
      else a @ ''/'' @ b)"

text \<open>The names on a path: repeated and trailing slashes name nothing.\<close>

definition path_components :: "string \<Rightarrow> string list" where
  "path_components p = filter (\<lambda>c. c \<noteq> []) (py_split ''/'' p)"

definition dir_exists :: "os_state \<Rightarrow> string list \<Rightarrow> bool" where
  "dir_exists s cs = (cs = [] \<or> cs \<in> dirs s)"

text \<open>\<open>os.path.exists(p)\<close>: the empty path does not exist.\<close>

definition path_exists :: "os_state \<Rightarrow> string \<Rightarrow> bool" where
  "path_exists s p = (p \<noteq> [] \<and> dir_exists s (path_components p))"

text \<open>\<open>os.mkdir\<close> on the names of a path: the directory must not exist and its parent
  must.\<close>

definition mkdir :: "string list \<Rightarrow> os_state \<Rightarrow> os_error option \<times> os_state" where
  "mkdir cs s =
     (if dir_exists s cs then (Some FileExistsError, s)
      else if \<not> dir_exists s (butlast cs) then (Some FileNotFoundError, s)
      else (None, s\<lparr>dirs := insert cs (dirs s)\<rparr>))"

text \<open>
  \<open>os.makedirs(name)\<close> with \<open>exist_ok=False\<close>, on the names of the path: when the
  parent does not exist it is made first by the recursive call, whose FileExistsError
  is passed over as the library does; then the leaf is made with \<open>mkdir\<close>.
\<close>

fun makedirs_at :: "string list \<Rightarrow> os_state \<Rightarrow> os_error option \<times> os_state" where
  "makedirs_at cs s =
     (if cs \<noteq> [] \<and> \<not> dir_exists s (butlast cs)
      then (let (e, s') = makedirs_at (butlast cs) s
            in if e = None \<or> e = Some FileExistsError then mkdir cs s' else (e, s'))
      else mkdir cs s)"

declare makedirs_at.simps [simp del]

definition makedirs :: "string \<Rightarrow> os_state \<Rightarrow> os_error option \<times> os_state" where
  "makedirs p s =
     (if p = [] then (Some FileNotFoundError, s) else makedirs_at (path_components p) s)"

text \<open>The statement pair \<open>if not os.path.exists(d): os.makedirs(d)\<close> of lines 240, 245
  and 250.\<close>

definition ensure_dir :: "string \<Rightarrow> os_state \<Rightarrow> os_error option \<times> os_state" where
  "ensure_dir d s = (if \<not> path_exists s d then makedirs d s else (None, s))"

text \<open>Sequencing: a statement that raised ends the function with the state it left.\<close>

definition and_then ::
  "os_error option \<times> os_state \<Rightarrow> (os_state \<Rightarrow> os_error option \<times> os_state) \<Rightarrow>
   os_error option \<times> os_state" where
  "and_then r f = (case r of (None, s) \<Rightarrow> f s | (Some e, s) \<Rightarrow> (Some e, s))"

text \<open>Lines 236 to 251, the body of the loop for one tuple of \<open>clip_data\<close>.\<close>

fun make_folders :: "string \<Rightarrow> clip \<Rightarrow> os_state \<Rightarrow> os_error option \<times> os_state" where
  "make_folders base_directory (file_name, shot_folder, episode_folder, season_folder) s =
     (let season_directory = path_join base_directory season_folder;
          episode_directory = path_join season_directory episode_folder;
          shot_directory = path_join episode_directory shot_folder
      in and_then (ensure_dir season_directory s) (\<lambda>s1.
         and_then (ensure_dir episode_directory s1) (\<lambda>s2.
         ensure_dir shot_directory s2)))"

fun folders_loop :: "string \<Rightarrow> clip list \<Rightarrow> os_state \<Rightarrow> os_error option \<times> os_state" where
  "folders_loop base_directory [] s = (None, s)"
| "folders_loop base_directory (file_info # rest) s =
     and_then (make_folders base_directory file_info s) (folders_loop base_directory rest)"

text \<open>\<open>generate_folders\<close>: the base directory is \<open>os.getcwd()\<close>, the tuples are those of
  \<open>self.clip_data\<close>. The message printed at the end goes to standard output, which is
  not part of the state.\<close>

definition generate_folders :: "app_state \<Rightarrow> os_state \<Rightarrow> os_error option \<times> os_state" where
  "generate_folders app s = folders_loop (cwd s) (clip_data app) s"

section \<open>Notions the claims are stated with\<close>

text \<open>A line as the iteration over a text file yields it: a newline can only be its last
  character.\<close>

definition file_line :: "string \<Rightarrow> bool" where
  "file_line l = (CHR 0x0A \<notin> set (butlast l))"

text \<open>\<open>s.find(sep)\<close>: the index of the first occurrence of \<open>sep\<close> in \<open>s\<close>, if there is
  one.\<close>

fun py_find :: "string \<Rightarrow> string \<Rightarrow> nat option" where
  "py_find sep [] = (if sep = [] then Some 0 else None)"
| "py_find sep (c # cs) =
     (if startswith (c # cs) sep then Some 0 else map_option Suc (py_find sep cs))"

text \<open>The clip name as the specification words it: everything after the first occurrence
  of \<open>CLIP\<close>, trimmed.\<close>

definition after_first_CLIP :: "string \<Rightarrow> string option" where
  "after_first_CLIP line =
     (case py_find ''CLIP'' line of
        None \<Rightarrow> None
      | Some i \<Rightarrow> Some (strip (drop (i + 4) line)))"

text \<open>The text up to the next occurrence of \<open>CLIP\<close>, or all of it when there is none.\<close>

definition up_to_next_CLIP :: "string \<Rightarrow> string" where
  "up_to_next_CLIP rest =
     (case py_find ''CLIP'' rest of None \<Rightarrow> rest | Some j \<Rightarrow> take j rest)"

text \<open>The two tests a line has to pass for a row: trimmed it starts with \<open>REEL\<close>, and the
  first token of its clip name matches the pattern.\<close>

definition qualifies :: "string \<Rightarrow> bool" where
  "qualifies line =
     (startswith (strip line) ''REEL'' \<and>
      (case clip_name_of line of
         Inl e \<Rightarrow> False
       | Inr c \<Rightarrow> re_match_pattern (hd (py_split ''_'' c))))"

text \<open>The row a line appends, if it appends one.\<close>

definition line_record :: "string \<Rightarrow> clip option" where
  "line_record line = (case process_line line of Inr (Some r) \<Rightarrow> Some r | _ \<Rightarrow> None)"


text \<open>A name of one directory: not empty and without a slash.\<close>

definition plain_name :: "string \<Rightarrow> bool" where
  "plain_name n = (n \<noteq> [] \<and> CHR ''/'' \<notin> set n)"

text \<open>The three directories of a tuple exist below the base directory.\<close>

definition folders_exist :: "string \<Rightarrow> clip \<Rightarrow> os_state \<Rightarrow> bool" where
  "folders_exist base_directory file_info s =
     (case file_info of
        (file_name, shot_folder, episode_folder, season_folder) \<Rightarrow>
          path_exists s (path_join base_directory season_folder) \<and>
          path_exists s (path_join (path_join base_directory season_folder) episode_folder) \<and>
          path_exists s
            (path_join (path_join (path_join base_directory season_folder) episode_folder)
               shot_folder))"

section \<open>Facts about the string primitives and the loop body\<close>

lemma py_split_not_Nil: "py_split sep s \<noteq> []"
  by (induction sep s rule: py_split.induct) (auto simp: cons_first_def split: list.splits)

lemma startswith_append_drop: "sep \<noteq> [] \<Longrightarrow> startswith (c # cs) sep \<Longrightarrow> c # cs = sep @ drop (length sep - 1) cs"
proof -
  assume a: "sep \<noteq> []" "startswith (c # cs) sep"
  then have "take (length sep) (c # cs) = sep" by (simp add: startswith_def)
  moreover have "drop (length sep) (c # cs) = drop (length sep - 1) cs" using a(1) by (cases sep) auto
  ultimately show ?thesis by (metis append_take_drop_id)
qed

lemma py_split_char_append:
  "py_split [c] (a @ c # b) = py_split [c] a @ py_split [c] b"
proof (induction a)
  case Nil
  then show ?case by (simp add: startswith_def)
next
  case (Cons x a)
  then show ?case using py_split_not_Nil[of "[c]" a]
    by (cases "py_split [c] a") (auto simp: startswith_def cons_first_def)
qed

lemma py_split_char_none: "c \<notin> set s \<Longrightarrow> py_split [c] s = [s]"
  by (induction s) (auto simp: startswith_def cons_first_def)

lemma py_split_char_pieces: "p \<in> set (py_split [c] s) \<Longrightarrow> c \<notin> set p"
proof (induction s arbitrary: p)
  case Nil then show ?case by simp
next
  case (Cons x s)
  then show ?case using py_split_not_Nil[of "[c]" s]
    by (cases "py_split [c] s") (auto simp: startswith_def cons_first_def split: if_splits)
qed

lemma py_split_concat:
  "py_split sep s = p # ps \<Longrightarrow> s = p @ concat (map ((@) sep) ps)"
proof (induction sep s arbitrary: p ps rule: py_split.induct)
  case (1 sep)
  then show ?case by simp
next
  case (2 sep c cs)
  show ?case
  proof (cases "sep \<noteq> [] \<and> startswith (c # cs) sep")
    case True
    with "2.prems" have p: "p = []" and ps: "ps = py_split sep (drop (length sep - 1) cs)" by auto
    obtain q qs where q: "py_split sep (drop (length sep - 1) cs) = q # qs"
      using py_split_not_Nil by (cases "py_split sep (drop (length sep - 1) cs)") auto
    from "2.IH"(1)[OF True q] have "drop (length sep - 1) cs = q @ concat (map ((@) sep) qs)" .
    moreover have "c # cs = sep @ drop (length sep - 1) cs"
      using startswith_append_drop True by blast
    ultimately show ?thesis using p ps q by simp
  next
    case False
    obtain q qs where q: "py_split sep cs = q # qs"
      using py_split_not_Nil by (cases "py_split sep cs") auto
    from "2.IH"(2)[OF False q] have "cs = q @ concat (map ((@) sep) qs)" .
    moreover from "2.prems" False q have "p = c # q" "ps = qs" by (auto simp: cons_first_def)
    ultimately show ?thesis by simp
  qed
qed

lemma len6: "length u = 6 \<Longrightarrow> \<exists>a b c d e f. u = [a,b,c,d,e,f]"
  by (auto simp: eval_nat_numeral length_Suc_conv)
lemma len7: "length u = 7 \<Longrightarrow> \<exists>a b c d e f g. u = [a,b,c,d,e,f,g]"
  by (auto simp: eval_nat_numeral length_Suc_conv)

lemma isdigit_not_e: "isdigit c \<Longrightarrow> c \<noteq> CHR ''e''"
  by (auto simp: isdigit_def)

lemma core_shape:
  assumes m: "length u = 6 \<or> length u = 7" "u ! 0 = CHR ''s''" "isdigit (u ! 1)"
      "isdigit (u ! 2)" "u ! 3 = CHR ''e''" "list_all isdigit (drop 4 u)"
  shows "\<exists>a b ds. u = [CHR ''s'', a, b, CHR ''e''] @ ds \<and> isdigit a \<and> isdigit b \<and>
           list_all isdigit ds \<and> (length ds = 2 \<or> length ds = 3)"
proof -
  from m(1) consider "length u = 6" | "length u = 7" by blast
  then show ?thesis
  proof cases
    case 1
    then obtain a b c d e f where "u = [a,b,c,d,e,f]" using len6 by blast
    with m(2-6) show ?thesis by simp
  next
    case 2
    then obtain a b c d e f g where "u = [a,b,c,d,e,f,g]" using len7 by blast
    with m(2-6) show ?thesis by simp
  qed
qed

lemma not_digit_e: "\<not> isdigit (CHR ''e'')" by (simp add: isdigit_def)
lemma not_digit_v: "\<not> isdigit (CHR ''v'')" by (simp add: isdigit_def)
lemma not_digit_nl: "\<not> isdigit (CHR 0x0A)" by (simp add: isdigit_def)

lemma re_match_cases:
  assumes "re_match_pattern t"
  shows "\<exists>a b ds. isdigit a \<and> isdigit b \<and> list_all isdigit ds \<and> (length ds = 2 \<or> length ds = 3) \<and>
           (t = [CHR ''s'', a, b, CHR ''e''] @ ds \<or> t = [CHR ''s'', a, b, CHR ''e''] @ ds @ [CHR 0x0A])"
proof (cases "t \<noteq> [] \<and> last t = CHR 0x0A")
  case True
  with assms have "length (butlast t) = 6 \<or> length (butlast t) = 7" "butlast t ! 0 = CHR ''s''"
     "isdigit (butlast t ! 1)" "isdigit (butlast t ! 2)" "butlast t ! 3 = CHR ''e''"
     "list_all isdigit (drop 4 (butlast t))"
    by (simp_all add: re_match_pattern_def Let_def)
  from core_shape[OF this] obtain a b ds where
    s: "butlast t = [CHR ''s'', a, b, CHR ''e''] @ ds" "isdigit a" "isdigit b" "list_all isdigit ds"
       "length ds = 2 \<or> length ds = 3" by blast
  from True have "butlast t @ [CHR 0x0A] = t" using append_butlast_last_id[of t] by simp
  with s(1) have "t = [CHR ''s'', a, b, CHR ''e''] @ ds @ [CHR 0x0A]" by simp
  with s show ?thesis by blast
next
  case False
  with assms have "length t = 6 \<or> length t = 7" "t ! 0 = CHR ''s''"
     "isdigit (t ! 1)" "isdigit (t ! 2)" "t ! 3 = CHR ''e''"
     "list_all isdigit (drop 4 t)"
    by (simp_all add: re_match_pattern_def Let_def split: if_splits)
  from core_shape[OF this] show ?thesis by blast
qed

lemma digits_no_e: "list_all isdigit ds \<Longrightarrow> CHR ''e'' \<notin> set ds"
  using not_digit_e by (induction ds) auto

lemma split_e_digits: "list_all isdigit ds \<Longrightarrow> py_split ''e'' (CHR ''e'' # ds) = [[], ds]"
  using py_split_char_none[of "CHR ''e''" ds] digits_no_e[of ds]
  by (simp add: startswith_def)

lemma zfill3_digits3: "length ds = 3 \<Longrightarrow> zfill 3 ds = ds"
  by (simp add: zfill_def)

lemma normalize_episode_digits:
  assumes "list_all isdigit ds" "length ds = 2 \<or> length ds = 3"
  shows "normalize_episode (CHR ''e'' # ds) = Inr (CHR ''e'' # zfill 3 ds)"
proof -
  from assms(2) consider "length ds = 2" | "length ds = 3" by blast
  then show ?thesis
  proof cases
    case 1
    then show ?thesis
      by (simp add: normalize_episode_def split_e_digits[OF assms(1)] index_def del: py_split.simps)
  next
    case 2
    then show ?thesis
      by (simp add: normalize_episode_def zfill3_digits3)
  qed
qed

lemma normalize_episode_newline:
  assumes "length ds = 2 \<or> length ds = 3"
  shows "normalize_episode (CHR ''e'' # ds @ [CHR 0x0A]) = Inr (CHR ''e'' # ds @ [CHR 0x0A])"
  using assms by (auto simp: normalize_episode_def)

lemma normalize_episode_ok:
  assumes "re_match_pattern t"
  shows "\<exists>ep. normalize_episode (drop 3 t) = Inr ep"
proof -
  from re_match_cases[OF assms] obtain a b ds where
    s: "list_all isdigit ds" "length ds = 2 \<or> length ds = 3"
       "t = [CHR ''s'', a, b, CHR ''e''] @ ds \<or> t = [CHR ''s'', a, b, CHR ''e''] @ ds @ [CHR 0x0A]" by blast
  from s(3) show ?thesis
  proof
    assume "t = [CHR ''s'', a, b, CHR ''e''] @ ds"
    then have "drop 3 t = CHR ''e'' # ds" by simp
    with normalize_episode_digits[OF s(1,2)] show ?thesis by simp
  next
    assume "t = [CHR ''s'', a, b, CHR ''e''] @ ds @ [CHR 0x0A]"
    then have "drop 3 t = CHR ''e'' # ds @ [CHR 0x0A]" by simp
    with normalize_episode_newline[OF s(2)] show ?thesis by simp
  qed
qed


lemma last_digit: "list_all isdigit ds \<Longrightarrow> ds \<noteq> [] \<Longrightarrow> isdigit (last ds)"
  by (induction ds) auto

lemma re_match_last:
  assumes "re_match_pattern t"
  shows "t \<noteq> [] \<and> last t \<noteq> CHR ''v''"
proof -
  from re_match_cases[OF assms] obtain a b ds where
    s: "list_all isdigit ds" "length ds = 2 \<or> length ds = 3"
       "t = [CHR ''s'', a, b, CHR ''e''] @ ds \<or> t = [CHR ''s'', a, b, CHR ''e''] @ ds @ [CHR 0x0A]" by blast
  then have ne: "ds \<noteq> []" by auto
  with s(1) have ld: "isdigit (last ds)" by (rule last_digit)
  from s(3) ne have "t \<noteq> []" "last t = last ds \<or> last t = CHR 0x0A" by auto
  with ld not_digit_v show ?thesis by auto
qed



lemma index_last: "parts \<noteq> [] \<Longrightarrow> index parts (length parts - 1) = Inr (last parts)"
  by (simp add: index_def last_conv_nth)

lemma index_hd: "parts \<noteq> [] \<Longrightarrow> index parts 0 = Inr (hd parts)"
  by (simp add: index_def hd_conv_nth)

lemma process_line_matched:
  assumes "startswith (strip line) ''REEL''" "clip_name_of line = Inr c"
      "re_match_pattern (hd (py_split ''_'' c))"
      "normalize_episode (drop 3 (hd (py_split ''_'' c))) = Inr ep"
  shows "process_line line =
           (case shot_of (py_split ''_'' c) ep of
              Inl e \<Rightarrow> Inl e
            | Inr shot \<Rightarrow> Inr (Some (c, shot, ep, take 3 (hd (py_split ''_'' c)))))"
  using assms index_hd[OF py_split_not_Nil, of "''_''" c]
  by (simp add: process_line_def Let_def del: py_split.simps)

lemma process_line_unmatched:
  assumes "startswith (strip line) ''REEL''" "clip_name_of line = Inr c"
      "\<not> re_match_pattern (hd (py_split ''_'' c))"
  shows "process_line line = Inr None"
  using assms index_hd[OF py_split_not_Nil, of "''_''" c]
  by (simp add: process_line_def Let_def del: py_split.simps)





lemma shot_of_plain:
  assumes "parts \<noteq> []" "\<not> endswith (last parts) ''.mov''" "\<not> endswith (last parts) ''.wav''"
  shows "shot_of parts ep = Inr []"
  using assms index_last[OF assms(1)] by (simp add: shot_of_def)



lemma process_line_SomeD:
  assumes "process_line line = Inr (Some (c, shot, ep, se))"
  shows "startswith (strip line) ''REEL''" "clip_name_of line = Inr c"
    "re_match_pattern (hd (py_split ''_'' c))"
    "normalize_episode (drop 3 (hd (py_split ''_'' c))) = Inr ep"
    "shot_of (py_split ''_'' c) ep = Inr shot"
    "se = take 3 (hd (py_split ''_'' c))"
proof -
  show r: "startswith (strip line) ''REEL''"
    using assms by (auto simp: process_line_def split: if_splits)
  obtain c' where c': "clip_name_of line = Inr c'"
    using assms r by (cases "clip_name_of line") (auto simp: process_line_def)
  have m: "re_match_pattern (hd (py_split ''_'' c'))"
    using assms r c' process_line_unmatched[OF r c'] by auto
  obtain ep' where ep': "normalize_episode (drop 3 (hd (py_split ''_'' c'))) = Inr ep'"
    using normalize_episode_ok[OF m] by blast
  from assms process_line_matched[OF r c' m ep']
  have "c' = c \<and> ep' = ep \<and> shot_of (py_split ''_'' c') ep' = Inr shot \<and>
        se = take 3 (hd (py_split ''_'' c'))"
    by (cases "shot_of (py_split ''_'' c') ep'") auto
  with c' m ep' show "clip_name_of line = Inr c"
    "re_match_pattern (hd (py_split ''_'' c))"
    "normalize_episode (drop 3 (hd (py_split ''_'' c))) = Inr ep"
    "shot_of (py_split ''_'' c) ep = Inr shot"
    "se = take 3 (hd (py_split ''_'' c))" by auto
qed

lemmas eval_defs = process_line_def clip_name_of_def strip_def startswith_def endswith_def
  isspace_def isdigit_def index_def cons_first_def re_match_pattern_def normalize_episode_def
  shot_of_def wav_shot_def mov_shot_def zfill_def parse_edl_file_def load_edl_data_def init_app_def


lemma strip_decomp: "\<exists>a b. s = a @ strip s @ b"
proof -
  let ?d = "dropWhile isspace s"
  have "rev ?d = takeWhile isspace (rev ?d) @ dropWhile isspace (rev ?d)" by simp
  then have "?d = rev (dropWhile isspace (rev ?d)) @ rev (takeWhile isspace (rev ?d))"
    by (metis rev_append rev_rev_ident)
  then have "?d = strip s @ rev (takeWhile isspace (rev ?d))" by (simp add: strip_def)
  moreover have "s = takeWhile isspace s @ ?d" by simp
  ultimately have "s = takeWhile isspace s @ strip s @ rev (takeWhile isspace (rev ?d))" by simp
  then show ?thesis by blast
qed

lemma strip_last: "strip s \<noteq> [] \<Longrightarrow> \<not> isspace (last (strip s))"
proof -
  assume n: "strip s \<noteq> []"
  let ?r = "dropWhile isspace (rev (dropWhile isspace s))"
  from n have r: "?r \<noteq> []" by (simp add: strip_def)
  then have "\<not> isspace (hd ?r)" by (rule hd_dropWhile)
  moreover have "last (strip s) = hd ?r" using r by (simp add: strip_def last_rev)
  ultimately show ?thesis by simp
qed

lemma isspace_nl: "isspace (CHR 0x0A)" by (simp add: isspace_def)

lemma butlast_mid: "x \<in> set (butlast c) \<Longrightarrow> x \<in> set (butlast (a @ c @ b))"
  by (cases "b = []") (auto simp: butlast_append dest: in_set_butlastD)

lemma clip_name_of_decomp:
  assumes "clip_name_of line = Inr c"
  shows "\<exists>a b. line = a @ c @ b"
proof -
  from assms obtain seg where i: "index (py_split ''CLIP'' line) 1 = Inr seg" and c: "c = strip seg"
    by (cases "index (py_split ''CLIP'' line) 1") (auto simp: clip_name_of_def)
  from i have l: "1 < length (py_split ''CLIP'' line)" and seg: "seg = py_split ''CLIP'' line ! 1"
    by (auto simp: index_def split: if_splits)
  then obtain p qs where pq: "py_split ''CLIP'' line = p # seg # qs"
    by (cases "py_split ''CLIP'' line"; cases "tl (py_split ''CLIP'' line)") auto
  from py_split_concat[OF pq] have "line = (p @ ''CLIP'') @ seg @ concat (map ((@) ''CLIP'') qs)" by simp
  moreover from strip_decomp[of seg] c obtain a b where "seg = a @ c @ b" by blast
  ultimately have "line = (p @ ''CLIP'' @ a) @ c @ (b @ concat (map ((@) ''CLIP'') qs))" by simp
  then show ?thesis by blast
qed

lemma clip_name_of_strip:
  assumes "clip_name_of line = Inr c"
  shows "\<exists>seg. c = strip seg"
  using assms by (cases "index (py_split ''CLIP'' line) 1") (auto simp: clip_name_of_def)

lemma strip_last_nl: assumes "c = strip seg" "c \<noteq> []" shows "last c \<noteq> CHR 0x0A"
  using assms strip_last[of seg] isspace_nl by auto

lemma last_in_butlast_append: "t \<noteq> [] \<Longrightarrow> last t \<in> set (butlast (t @ y # r))"
  using last_in_set[of t] by (simp add: butlast_append)

lemma first_token_no_newline_aux:
  assumes "clip_name_of line = Inr c" "file_line line" "py_split ''_'' c = t # ps" "t \<noteq> []"
  shows "last t \<noteq> CHR 0x0A"
proof
  assume nl: "last t = CHR 0x0A"
  from py_split_concat[OF assms(3)] have cc: "c = t @ concat (map ((@) ''_'') ps)" .
  from clip_name_of_strip[OF assms(1)] obtain seg where c: "c = strip seg" by blast
  have "CHR 0x0A \<in> set (butlast c)"
  proof (cases ps)
    case Nil
    with cc have ct: "c = t" by simp
    with assms(4) have "c \<noteq> []" by simp
    from strip_last_nl[OF c this] ct nl show ?thesis by simp
  next
    case (Cons q qs)
    with cc have c2: "c = t @ CHR ''_'' # (q @ concat (map ((@) ''_'') qs))" by simp
    from last_in_butlast_append[OF assms(4), of "CHR ''_''" "q @ concat (map ((@) ''_'') qs)"]
    have "last t \<in> set (butlast c)" unfolding c2[symmetric] .
    with nl show ?thesis by simp
  qed
  then have m: "\<And>a b. CHR 0x0A \<in> set (butlast (a @ c @ b))" by (rule butlast_mid)
  from clip_name_of_decomp[OF assms(1)] obtain a b where l: "line = a @ c @ b" by blast
  have "CHR 0x0A \<in> set (butlast line)" unfolding l by (rule m)
  with assms(2) show False by (simp add: file_line_def)
qed

lemma first_token_no_newline:
  assumes "clip_name_of line = Inr c" "file_line line" "re_match_pattern (hd (py_split ''_'' c))"
  shows "last (hd (py_split ''_'' c)) \<noteq> CHR 0x0A"
proof -
  obtain t ps where ps: "py_split ''_'' c = t # ps"
    using py_split_not_Nil[of "''_''" c] by (cases "py_split ''_'' c") auto
  then have h: "hd (py_split ''_'' c) = t" by simp
  with re_match_last[OF assms(3)] have "t \<noteq> []" by simp
  from first_token_no_newline_aux[OF assms(1,2) ps this] h show ?thesis by simp
qed

lemma file_line_Cons: "c \<noteq> CHR 0x0A \<Longrightarrow> file_line m \<Longrightarrow> file_line (c # m)"
  by (cases m) (auto simp: file_line_def)

lemma file_lines_file_line: "l \<in> set (file_lines content) \<Longrightarrow> file_line l"
proof (induction content arbitrary: l)
  case Nil
  then show ?case by simp
next
  case (Cons c cs)
  show ?case
  proof (cases "c = CHR 0x0A")
    case True
    with Cons show ?thesis by (auto simp: file_line_def)
  next
    case False
    show ?thesis
    proof (cases "file_lines cs")
      case Nil
      with Cons.prems False show ?thesis by (auto simp: cons_first_def file_line_def)
    next
      case (Cons m ms)
      with Cons.prems False have "l = c # m \<or> l \<in> set ms" by (auto simp: cons_first_def)
      moreover have "file_line m" "\<And>x. x \<in> set ms \<Longrightarrow> file_line x"
        using Cons.IH Cons by auto
      ultimately show ?thesis using False file_line_Cons by blast
    qed
  qed
qed

lemma not_digit_plus: "\<not> isdigit (CHR ''+'')" by (simp add: isdigit_def)
lemma not_digit_minus: "\<not> isdigit (CHR ''-'')" by (simp add: isdigit_def)
lemma digit_zero: "isdigit (CHR ''0'')" by (simp add: isdigit_def)

lemma zfill3_two_digits:
  assumes "list_all isdigit ds" "length ds = 2"
  shows "zfill 3 ds = CHR ''0'' # ds"
proof -
  from assms(2) obtain x y where d: "ds = [x, y]"
    by (cases ds; cases "tl ds") auto
  with assms(1) have "isdigit x" by simp
  with not_digit_plus not_digit_minus have "x \<noteq> CHR ''+''" "x \<noteq> CHR ''-''" by auto
  with d show ?thesis by (simp add: zfill_def)
qed

lemma zfill3_digits:
  assumes "list_all isdigit ds" "length ds = 2 \<or> length ds = 3"
  shows "length (zfill 3 ds) = 3" "list_all isdigit (zfill 3 ds)"
  using assms zfill3_two_digits[of ds] zfill3_digits3[of ds] digit_zero by auto


lemma py_split_find:
  "sep \<noteq> [] \<Longrightarrow> py_split sep s =
     (case py_find sep s of
        None \<Rightarrow> [s]
      | Some i \<Rightarrow> take i s # py_split sep (drop (i + length sep) s))"
proof (induction s)
  case Nil
  then show ?case by (simp add: startswith_def)
next
  case (Cons c cs)
  show ?case
  proof (cases "startswith (c # cs) sep")
    case True
    from Cons.prems have "drop (length sep) (c # cs) = drop (length sep - 1) cs"
      by (cases sep) auto
    with True Cons.prems show ?thesis by simp
  next
    case False
    with Cons show ?thesis
      by (cases "py_find sep cs") (auto simp: cons_first_def)
  qed
qed

lemma py_split_find_n:
  "sep \<noteq> [] \<Longrightarrow> length sep = n \<Longrightarrow> py_split sep s =
     (case py_find sep s of
        None \<Rightarrow> [s]
      | Some i \<Rightarrow> take i s # py_split sep (drop (i + n) s))"
  using py_split_find[of sep s] by auto

lemma py_split_CLIP:
  "py_split ''CLIP'' s =
     (case py_find ''CLIP'' s of
        None \<Rightarrow> [s]
      | Some i \<Rightarrow> take i s # py_split ''CLIP'' (drop (i + 4) s))"
  by (rule py_split_find_n) simp_all

lemma clip_name_of_find:
  "clip_name_of line =
     (case py_find ''CLIP'' line of
        None \<Rightarrow> Inl IndexError
      | Some i \<Rightarrow> Inr (strip (up_to_next_CLIP (drop (i + 4) line))))"
proof (cases "py_find ''CLIP'' line")
  case None
  then have "py_split ''CLIP'' line = [line]" using py_split_CLIP[of line] by simp
  with None show ?thesis by (simp add: clip_name_of_def index_def)
next
  case (Some i)
  let ?rest = "drop (i + 4) line"
  from Some have sp: "py_split ''CLIP'' line = take i line # py_split ''CLIP'' ?rest"
    using py_split_CLIP[of line] by simp
  have "hd (py_split ''CLIP'' ?rest) = up_to_next_CLIP ?rest"
    using py_split_CLIP[of ?rest]
    by (cases "py_find ''CLIP'' ?rest") (simp_all add: up_to_next_CLIP_def)
  moreover have ne: "py_split ''CLIP'' ?rest \<noteq> []" by (rule py_split_not_Nil)
  ultimately have "index (py_split ''CLIP'' line) 1 = Inr (up_to_next_CLIP ?rest)"
    unfolding sp by (simp add: index_def hd_conv_nth)
  with Some show ?thesis by (simp add: clip_name_of_def)
qed


lemma parse_lines_ok:
  "parse_lines ls cd = (None, cd') \<Longrightarrow> cd' = cd @ List.map_filter line_record ls"
proof (induction ls arbitrary: cd)
  case Nil
  then show ?case by (simp add: List.map_filter_simps)
next
  case (Cons l rest)
  show ?case
  proof (cases "process_line l")
    case (Inl e)
    with Cons.prems show ?thesis by simp
  next
    case (Inr opt)
    show ?thesis
    proof (cases opt)
      case None
      with Inr Cons show ?thesis by (simp add: List.map_filter_simps line_record_def)
    next
      case (Some r)
      with Inr Cons.prems have "parse_lines rest (cd @ [r]) = (None, cd')" by simp
      from Cons.IH[OF this] Inr Some show ?thesis
        by (simp add: List.map_filter_simps line_record_def)
    qed
  qed
qed

lemma parse_lines_raised:
  "parse_lines ls cd = (Some e, cd') \<Longrightarrow>
     \<exists>k<length ls. process_line (ls ! k) = Inl e \<and>
        cd' = cd @ List.map_filter line_record (take k ls)"
proof (induction ls arbitrary: cd)
  case Nil
  then show ?case by simp
next
  case (Cons l rest)
  show ?case
  proof (cases "process_line l")
    case (Inl e0)
    with Cons.prems have "e0 = e" "cd' = cd" by simp_all
    with Inl have "0 < length (l # rest) \<and> process_line ((l # rest) ! 0) = Inl e \<and>
        cd' = cd @ List.map_filter line_record (take 0 (l # rest))"
      by (simp add: List.map_filter_simps)
    then show ?thesis by blast
  next
    case (Inr opt)
    show ?thesis
    proof (cases opt)
      case None
      with Inr Cons.prems have "parse_lines rest cd = (Some e, cd')" by simp
      from Cons.IH[OF this] obtain k where k: "k < length rest" "process_line (rest ! k) = Inl e"
        "cd' = cd @ List.map_filter line_record (take k rest)" by blast
      with Inr None have "Suc k < length (l # rest) \<and> process_line ((l # rest) ! Suc k) = Inl e \<and>
        cd' = cd @ List.map_filter line_record (take (Suc k) (l # rest))"
        by (simp add: List.map_filter_simps line_record_def)
      then show ?thesis by blast
    next
      case (Some r)
      with Inr Cons.prems have "parse_lines rest (cd @ [r]) = (Some e, cd')" by simp
      from Cons.IH[OF this] obtain k where k: "k < length rest" "process_line (rest ! k) = Inl e"
        "cd' = (cd @ [r]) @ List.map_filter line_record (take k rest)" by blast
      with Inr Some have "Suc k < length (l # rest) \<and> process_line ((l # rest) ! Suc k) = Inl e \<and>
        cd' = cd @ List.map_filter line_record (take (Suc k) (l # rest))"
        by (simp add: List.map_filter_simps line_record_def)
      then show ?thesis by blast
    qed
  qed
qed





lemma process_line_Some_qualifies:
  assumes "process_line line = Inr (Some r)" shows "qualifies line"
proof -
  obtain c shot ep se where r: "r = (c, shot, ep, se)" by (cases r) auto
  note d = process_line_SomeD[OF assms[unfolded r]]
  from d(1,2,3) show ?thesis by (simp add: qualifies_def del: py_split.simps)
qed


section \<open>The claims\<close>



text \<open>
  C5. For a line of a file that appends a row, the episode of the row is the letter e
  followed by the digits behind the e of the first token, filled with zeros to width
  three: four characters, the last three digits. Normalizing the episode again leaves it
  as it is. Examples: e23 becomes e023, e123 and e005 stay.
\<close>

theorem episode_normalized:
  "(process_line line = Inr (Some (c, shot, episode, season)) \<and> file_line line \<longrightarrow>
      episode = ''e'' @ zfill 3 (drop 4 (hd (py_split ''_'' c))) \<and>
      length episode = 4 \<and> list_all isdigit (drop 1 episode) \<and>
      normalize_episode episode = Inr episode)
   \<and> normalize_episode ''e23'' = Inr ''e023''
   \<and> normalize_episode ''e123'' = Inr ''e123''
   \<and> normalize_episode ''e005'' = Inr ''e005''"
proof (intro conjI impI)
  assume a: "process_line line = Inr (Some (c, shot, episode, season)) \<and> file_line line"
  let ?t = "hd (py_split ''_'' c)"
  from a have p: "process_line line = Inr (Some (c, shot, episode, season))" and f: "file_line line"
    by simp_all
  note d = process_line_SomeD[OF p]
  from first_token_no_newline[OF d(2) f d(3)] have nl: "last ?t \<noteq> CHR 0x0A" .
  from re_match_cases[OF d(3)] obtain a b ds where
    s: "list_all isdigit ds" "length ds = 2 \<or> length ds = 3"
       "?t = [CHR ''s'', a, b, CHR ''e''] @ ds \<or> ?t = [CHR ''s'', a, b, CHR ''e''] @ ds @ [CHR 0x0A]"
    by blast
  from s(3) nl have t: "?t = [CHR ''s'', a, b, CHR ''e''] @ ds" by auto
  then have d3: "drop 3 ?t = CHR ''e'' # ds" and d4: "drop 4 ?t = ds" by simp_all
  from d(4) d3 normalize_episode_digits[OF s(1,2)] have e: "episode = CHR ''e'' # zfill 3 ds"
    by simp
  with d4 show "episode = ''e'' @ zfill 3 (drop 4 ?t)" by simp
  from e zfill3_digits[OF s(1,2)] show "length episode = 4" "list_all isdigit (drop 1 episode)"
    by simp_all
  from zfill3_digits[OF s(1,2)] have "normalize_episode (CHR ''e'' # zfill 3 ds) =
      Inr (CHR ''e'' # zfill 3 (zfill 3 ds))"
    by (intro normalize_episode_digits) simp_all
  with e zfill3_digits3[of "zfill 3 ds"] zfill3_digits(1)[OF s(1,2)]
  show "normalize_episode episode = Inr episode" by simp
next
  show "normalize_episode ''e23'' = Inr ''e023''"
    by (simp add: normalize_episode_def index_def startswith_def cons_first_def zfill_def)
  show "normalize_episode ''e123'' = Inr ''e123''"
    by (simp add: normalize_episode_def)
  show "normalize_episode ''e005'' = Inr ''e005''"
    by (simp add: normalize_episode_def)
qed

theorem episode_normalized_witness:
  "process_line ''REEL 007 CLIP s04e23_a_b_c_d-0012.mov\<newline>'' =
     Inr (Some (''s04e23_a_b_c_d-0012.mov'', ''e023s0012'', ''e023'', ''s04'')) \<and>
   file_line ''REEL 007 CLIP s04e23_a_b_c_d-0012.mov\<newline>'' \<and>
   hd (py_split ''_'' ''s04e23_a_b_c_d-0012.mov'') = ''s04e23'' \<and>
   ''e023'' = ''e'' @ zfill 3 ''23'' \<and>
   normalize_episode ''e023'' = Inr ''e023''"
  using episode_normalized [of "''REEL 007 CLIP s04e23_a_b_c_d-0012.mov\<newline>''"
      "''s04e23_a_b_c_d-0012.mov''" "''e023s0012''" "''e023''" "''s04''"]
  by (simp add: eval_defs file_line_def)



text \<open>
  C8. When a line appends a row and the last token of its clip name ends neither in
  \<open>.mov\<close> nor in \<open>.wav\<close>, the shot of the row is the empty string.
\<close>

theorem other_extension_empty_shot:
  "process_line line = Inr (Some (c, shot, episode, season)) \<and>
   \<not> endswith (last (py_split ''_'' c)) ''.mov'' \<and>
   \<not> endswith (last (py_split ''_'' c)) ''.wav'' \<longrightarrow> shot = []"
proof
  assume a: "process_line line = Inr (Some (c, shot, episode, season)) \<and>
   \<not> endswith (last (py_split ''_'' c)) ''.mov'' \<and>
   \<not> endswith (last (py_split ''_'' c)) ''.wav''"
  then have p: "process_line line = Inr (Some (c, shot, episode, season))" by simp
  from process_line_SomeD(5)[OF p] a shot_of_plain[OF py_split_not_Nil, of "''_''" c episode]
  show "shot = []" by simp
qed

theorem other_extension_empty_shot_witness:
  "process_line ''REEL 003 CLIP s03e07_notes.txt'' =
     Inr (Some (''s03e07_notes.txt'', [], ''e007'', ''s03'')) \<and>
   last (py_split ''_'' ''s03e07_notes.txt'') = ''notes.txt'' \<and>
   \<not> endswith ''notes.txt'' ''.mov'' \<and> \<not> endswith ''notes.txt'' ''.wav''"
  using other_extension_empty_shot [of "''REEL 003 CLIP s03e07_notes.txt''"
      "''s03e07_notes.txt''" "[]" "''e007''" "''s03''"]
  by (simp add: eval_defs)






text \<open>
  C3, as the code has it. \<open>line.split("CLIP")[1]\<close> is the text between the first
  occurrence of CLIP and the next one (or the end of the line), so the clip name of a row
  is that text, trimmed. When CLIP occurs once only, this is everything after it, trimmed.
\<close>

theorem clip_name_up_to_next_CLIP:
  "clip_name_of line =
     (case py_find ''CLIP'' line of
        None \<Rightarrow> Inl IndexError
      | Some i \<Rightarrow> Inr (strip (up_to_next_CLIP (drop (i + 4) line)))) \<and>
   (process_line line = Inr (Some (c, shot, episode, season)) \<longrightarrow>
      (\<exists>i. py_find ''CLIP'' line = Some i \<and>
           c = strip (up_to_next_CLIP (drop (i + 4) line)) \<and>
           (py_find ''CLIP'' (drop (i + 4) line) = None \<longrightarrow> after_first_CLIP line = Some c)))"
proof (intro conjI impI)
  show "clip_name_of line =
     (case py_find ''CLIP'' line of
        None \<Rightarrow> Inl IndexError
      | Some i \<Rightarrow> Inr (strip (up_to_next_CLIP (drop (i + 4) line))))"
    by (rule clip_name_of_find)
next
  assume p: "process_line line = Inr (Some (c, shot, episode, season))"
  from process_line_SomeD(2)[OF p] have cn: "clip_name_of line = Inr c" .
  then obtain i where i: "py_find ''CLIP'' line = Some i"
    and c: "c = strip (up_to_next_CLIP (drop (i + 4) line))"
    using clip_name_of_find[of line] by (cases "py_find ''CLIP'' line") auto
  have imp: "py_find ''CLIP'' (drop (i + 4) line) = None \<longrightarrow> after_first_CLIP line = Some c"
  proof
    assume "py_find ''CLIP'' (drop (i + 4) line) = None"
    then have "up_to_next_CLIP (drop (i + 4) line) = drop (i + 4) line"
      by (simp add: up_to_next_CLIP_def)
    then have "strip (up_to_next_CLIP (drop (i + 4) line)) = strip (drop (i + 4) line)"
      by simp
    moreover from i have "after_first_CLIP line = Some (strip (drop (i + 4) line))"
      by (simp add: after_first_CLIP_def)
    ultimately show "after_first_CLIP line = Some c" unfolding c by simp
  qed
  show "\<exists>i. py_find ''CLIP'' line = Some i \<and>
           c = strip (up_to_next_CLIP (drop (i + 4) line)) \<and>
           (py_find ''CLIP'' (drop (i + 4) line) = None \<longrightarrow> after_first_CLIP line = Some c)"
  proof (intro exI conjI)
    show "py_find ''CLIP'' line = Some i" by (rule i)
    show "c = strip (up_to_next_CLIP (drop (i + 4) line))" by (rule c)
    show "py_find ''CLIP'' (drop (i + 4) line) = None \<longrightarrow> after_first_CLIP line = Some c"
      by (rule imp)
  qed
qed

theorem clip_name_up_to_next_CLIP_witness:
  "process_line ''REEL 002 CLIP s02e12_0033-x.wav\<newline>'' =
     Inr (Some (''s02e12_0033-x.wav'', ''e012s0033'', ''e012'', ''s02'')) \<and>
   py_find ''CLIP'' ''REEL 002 CLIP s02e12_0033-x.wav\<newline>'' = Some 9 \<and>
   py_find ''CLIP'' (drop (9 + 4) ''REEL 002 CLIP s02e12_0033-x.wav\<newline>'') = None \<and>
   after_first_CLIP ''REEL 002 CLIP s02e12_0033-x.wav\<newline>'' = Some ''s02e12_0033-x.wav''"
proof -
  define l where "l = ''REEL 002 CLIP s02e12_0033-x.wav\<newline>''"
  define c where "c = ''s02e12_0033-x.wav''"
  have p: "process_line l = Inr (Some (c, ''e012s0033'', ''e012'', ''s02''))"
    unfolding l_def c_def by code_simp
  have f: "py_find ''CLIP'' l = Some 9" unfolding l_def by code_simp
  have n: "py_find ''CLIP'' (drop (9 + 4) l) = None" unfolding l_def by code_simp
  note th = clip_name_up_to_next_CLIP [of l c "''e012s0033''" "''e012''" "''s02''"]
  from th have "process_line l = Inr (Some (c, ''e012s0033'', ''e012'', ''s02'')) \<longrightarrow>
      (\<exists>i. py_find ''CLIP'' l = Some i \<and>
           c = strip (up_to_next_CLIP (drop (i + 4) l)) \<and>
           (py_find ''CLIP'' (drop (i + 4) l) = None \<longrightarrow> after_first_CLIP l = Some c))"
    by (rule conjunct2)
  from this p have "\<exists>i. py_find ''CLIP'' l = Some i \<and>
           c = strip (up_to_next_CLIP (drop (i + 4) l)) \<and>
           (py_find ''CLIP'' (drop (i + 4) l) = None \<longrightarrow> after_first_CLIP l = Some c)"
    by (rule mp)
  then obtain i where i: "py_find ''CLIP'' l = Some i"
    and a: "py_find ''CLIP'' (drop (i + 4) l) = None \<longrightarrow> after_first_CLIP l = Some c"
    by (elim exE conjE)
  from i f have "i = 9" by simp
  with a have "py_find ''CLIP'' (drop (9 + 4) l) = None \<longrightarrow> after_first_CLIP l = Some c"
    by simp
  from this n have af: "after_first_CLIP l = Some c" by (rule mp)
  have "process_line l = Inr (Some (c, ''e012s0033'', ''e012'', ''s02'')) \<and>
    py_find ''CLIP'' l = Some 9 \<and> py_find ''CLIP'' (drop (9 + 4) l) = None \<and>
    after_first_CLIP l = Some c"
    by (intro conjI) (rule p, rule f, rule n, rule af)
  then show ?thesis unfolding l_def c_def .
qed

text \<open>
  C3 as stated fails on a line in which CLIP occurs twice: the clip name of the row stops
  before the second CLIP.
\<close>

theorem clip_name_after_first_CLIP_counterexample:
  "process_line ''REEL 001 CLIP s01e05_a_CLIP_x.mov'' =
     Inr (Some (''s01e05_a_'', [], ''e005'', ''s01'')) \<and>
   after_first_CLIP ''REEL 001 CLIP s01e05_a_CLIP_x.mov'' = Some ''s01e05_a_CLIP_x.mov'' \<and>
   ''s01e05_a_'' \<noteq> ''s01e05_a_CLIP_x.mov''"
  by code_simp

text \<open>
  C7. A line appends a row only if it qualifies (trimmed it starts with REEL, and the
  first token of its clip name matches the pattern); a line that does not qualify appends
  none. After a parse without error the list is the list before followed by the rows of
  the lines, in the order of the lines and with repetitions kept; after a parse that
  raised, the same holds for the lines before the one that raised.
\<close>

theorem records_in_file_order:
  "(process_line line = Inr (Some r) \<longrightarrow> qualifies line) \<and>
   (\<not> qualifies line \<longrightarrow> line_record line = None) \<and>
   (parse_lines ls cd = (None, cd') \<longrightarrow> cd' = cd @ List.map_filter line_record ls) \<and>
   (parse_lines ls cd = (Some e, cd') \<longrightarrow>
      (\<exists>k<length ls. process_line (ls ! k) = Inl e \<and>
          cd' = cd @ List.map_filter line_record (take k ls)))"
proof (intro conjI impI)
  assume "process_line line = Inr (Some r)"
  then show "qualifies line" by (rule process_line_Some_qualifies)
next
  assume nq: "\<not> qualifies line"
  show "line_record line = None"
  proof (cases "process_line line")
    case (Inl e)
    then show ?thesis by (simp add: line_record_def)
  next
    case (Inr opt)
    with nq process_line_Some_qualifies[of line] show ?thesis
      by (cases opt) (auto simp: line_record_def)
  qed
next
  assume "parse_lines ls cd = (None, cd')"
  then show "cd' = cd @ List.map_filter line_record ls" by (rule parse_lines_ok)
next
  assume "parse_lines ls cd = (Some e, cd')"
  then show "\<exists>k<length ls. process_line (ls ! k) = Inl e \<and>
          cd' = cd @ List.map_filter line_record (take k ls)" by (rule parse_lines_raised)
qed

theorem records_in_file_order_witness:
  "process_line ''REEL 002 CLIP s02e12_0033-x.wav\<newline>'' =
     Inr (Some (''s02e12_0033-x.wav'', ''e012s0033'', ''e012'', ''s02'')) \<and>
   qualifies ''REEL 002 CLIP s02e12_0033-x.wav\<newline>'' \<and>
   \<not> qualifies ''TITLE: demo\<newline>'' \<and> line_record ''TITLE: demo\<newline>'' = None \<and>
   parse_lines [''REEL 002 CLIP s02e12_0033-x.wav\<newline>'', ''TITLE: demo\<newline>'',
                ''REEL 009 CLIP intro_card.mov\<newline>'',
                ''REEL 003 CLIP s03e07_notes.txt\<newline>'',
                ''REEL 002 CLIP s02e12_0033-x.wav\<newline>''] [] =
     (None, [(''s02e12_0033-x.wav'', ''e012s0033'', ''e012'', ''s02''),
             (''s03e07_notes.txt'', [], ''e007'', ''s03''),
             (''s02e12_0033-x.wav'', ''e012s0033'', ''e012'', ''s02'')]) \<and>
   [(''s02e12_0033-x.wav'', ''e012s0033'', ''e012'', ''s02''),
    (''s03e07_notes.txt'', [], ''e007'', ''s03''),
    (''s02e12_0033-x.wav'', ''e012s0033'', ''e012'', ''s02'')] =
     [] @ List.map_filter line_record
       [''REEL 002 CLIP s02e12_0033-x.wav\<newline>'', ''TITLE: demo\<newline>'',
        ''REEL 009 CLIP intro_card.mov\<newline>'',
        ''REEL 003 CLIP s03e07_notes.txt\<newline>'',
        ''REEL 002 CLIP s02e12_0033-x.wav\<newline>'']"
proof -
  define l where "l = ''REEL 002 CLIP s02e12_0033-x.wav\<newline>''"
  define t where "t = ''TITLE: demo\<newline>''"
  define r where "r = (''s02e12_0033-x.wav'', ''e012s0033'', ''e012'', ''s02'')"
  define ls where "ls = [l, t, ''REEL 009 CLIP intro_card.mov\<newline>'',
                ''REEL 003 CLIP s03e07_notes.txt\<newline>'', l]"
  define rs where "rs = [r, (''s03e07_notes.txt'', [], ''e007'', ''s03''), r]"
  have p: "process_line l = Inr (Some r)" unfolding l_def r_def by code_simp
  have nq: "\<not> qualifies t" unfolding t_def by code_simp
  have pl: "parse_lines ls [] = (None, rs)" unfolding ls_def rs_def l_def t_def r_def by code_simp
  note th1 = records_in_file_order [of l r ls "[]" rs]
  note th2 = records_in_file_order [of t r ls "[]" rs]
  from th1 have "process_line l = Inr (Some r) \<longrightarrow> qualifies l" by (rule conjunct1)
  from this p have q: "qualifies l" by (rule mp)
  have "\<not> qualifies t \<longrightarrow> line_record t = None"
    by (rule th2[THEN conjunct2, THEN conjunct1])
  from this nq have lr: "line_record t = None" by (rule mp)
  have "parse_lines ls [] = (None, rs) \<longrightarrow> rs = [] @ List.map_filter line_record ls"
    by (rule th1[THEN conjunct2, THEN conjunct2, THEN conjunct1])
  from this pl have o: "rs = [] @ List.map_filter line_record ls" by (rule mp)
  have "process_line l = Inr (Some r) \<and> qualifies l \<and> \<not> qualifies t \<and>
     line_record t = None \<and> parse_lines ls [] = (None, rs) \<and>
     rs = [] @ List.map_filter line_record ls"
    by (intro conjI) (rule p, rule q, rule nq, rule lr, rule pl, rule o)
  then show ?thesis unfolding ls_def rs_def l_def t_def r_def .
qed

end
